theory Spec2Isabelle
  imports Main "HOL-Library.Word" "HOL-Library.Sublist"
begin

section \<open>JavaScript strings\<close>

text \<open>
  The front end is TypeScript. A JavaScript string is a sequence of UTF-16 code units,
  so SQL text is a list of 16-bit words; \<open>js\<close> writes an ASCII literal.
\<close>

type_synonym jsstring = "16 word list"

definition js :: "string \<Rightarrow> jsstring" where
  "js s = map of_char s"

text \<open>
  \<open>String.prototype.trim\<close> removes leading and trailing white space and line
  terminators: TAB, LF, VT, FF, CR, SP, NBSP, the Unicode space separators
  (U+1680, U+2000..U+200A, U+202F, U+205F, U+3000), LS, PS and the BOM.
\<close>

definition is_js_whitespace :: "16 word \<Rightarrow> bool" where
  "is_js_whitespace c \<longleftrightarrow>
     c \<in> set [0x0009, 0x000A, 0x000B, 0x000C, 0x000D, 0x0020, 0x00A0, 0x1680,
               0x2000, 0x2001, 0x2002, 0x2003, 0x2004, 0x2005, 0x2006, 0x2007,
               0x2008, 0x2009, 0x200A, 0x2028, 0x2029, 0x202F, 0x205F, 0x3000, 0xFEFF]"

definition trim :: "jsstring \<Rightarrow> jsstring" where
  "trim s = rev (dropWhile is_js_whitespace (rev (dropWhile is_js_whitespace s)))"

definition ws_only :: "jsstring \<Rightarrow> bool" where
  "ws_only s = list_all is_js_whitespace s"

text \<open>\<open>s.includes(sep)\<close>: \<open>sep\<close> occurs in \<open>s\<close> at some position.\<close>

fun js_includes :: "'a list \<Rightarrow> 'a list \<Rightarrow> bool" where
  "js_includes [] sep = (sep = [])"
| "js_includes (c # cs) sep = (prefix sep (c # cs) \<or> js_includes cs sep)"

text \<open>
  \<open>s.split(sep)\<close> with a string separator and no limit scans from the left for the
  next occurrence of \<open>sep\<close>, emits the text before it and continues after it; the rest
  of the string is the last piece. \<open>acc\<close> holds the current piece, reversed. An empty
  separator splits into single code units.
\<close>

function split_from :: "'a list \<Rightarrow> 'a list \<Rightarrow> 'a list \<Rightarrow> 'a list list" where
  "split_from sep acc [] = [rev acc]"
| "split_from sep acc (c # cs) =
     (if sep \<noteq> [] \<and> prefix sep (c # cs)
      then rev acc # split_from sep [] (drop (length sep) (c # cs))
      else split_from sep (c # acc) cs)"
  by pat_completeness auto
termination
  by (relation "measure (\<lambda>(sep, acc, s). length s)") auto

definition split :: "jsstring \<Rightarrow> jsstring \<Rightarrow> jsstring list" where
  "split s sep = (if sep = [] then map (\<lambda>c. [c]) s else split_from sep [] s)"

text \<open>\<open>xs.join(sep)\<close>.\<close>

fun join :: "jsstring list \<Rightarrow> jsstring \<Rightarrow> jsstring" where
  "join [] sep = []"
| "join [x] sep = x"
| "join (x # y # ys) sep = x @ sep @ join (y # ys) sep"

section \<open>The multi-statement separator\<close>

text \<open>
  The sentinel \<open><----->\<close>. ChatBot (handleSendMessage, loadSessionMessages) turns the
  \<open>sql\<close> of a response into the editor's queries with
  \<open>sql.split('<----->').map(q => q.trim()).filter(q => q)\<close>.
\<close>

definition SENTINEL :: jsstring where
  "SENTINEL = js ''<----->''"

definition split_queries :: "jsstring \<Rightarrow> jsstring list" where
  "split_queries blob = filter (\<lambda>q. q \<noteq> []) (map trim (split blob SENTINEL))"

section \<open>SqlEditor\<close>




text \<open>
  executeBatch: the cells whose trimmed SQL is not empty are joined with the sentinel on
  a line of its own and sent as one request; with no such cell nothing is sent.
\<close>

definition BATCH_SEPARATOR :: jsstring where
  "BATCH_SEPARATOR = [0x000A] @ SENTINEL @ [0x000A]"




section \<open>The API client (lib/api.ts)\<close>

datatype json = JNull | JBool bool | JNum int | JString string | JArray "json list"
  | JObject "(string \<times> json) list"

type_synonym row = "(string \<times> json) list"

text \<open>
  The query response as the client handles it: an object whose fields may be absent.
  These are the fields that executeQuery, handleSendMessage and loadSessionMessages
  test or copy into a decision; pagination, table_id, tables, analysis_type, the chart
  fields and assistant_message travel with the object unchanged and decide nothing
  modelled here. The field \<open>text\<close> is written \<open>text'\<close>.
\<close>

record envelope =
  success :: "bool option"
  error :: "string option"
  query_type :: "string option"
  text' :: "string option"
  message :: "string option"
  sql :: "jsstring option"
  results :: "row list option"
  data :: "row list option"
  is_edit_query :: "bool option"
  requires_confirmation :: "bool option"
  verification_result :: "json option"
  is_conversational :: "bool option"
  is_multi_query :: "bool option"
  is_why_analysis :: "bool option"

definition no_fields :: envelope where
  "no_fields = \<lparr>success = None, error = None, query_type = None, text' = None,
     message = None, sql = None, results = None, data = None, is_edit_query = None,
     requires_confirmation = None, verification_result = None, is_conversational = None,
     is_multi_query = None, is_why_analysis = None\<rparr>"

text \<open>
  JavaScript truthiness of an optional string (absent and empty are falsy), of an
  optional boolean, and \<open>a || b\<close> on optional strings.
\<close>

definition truthy_string :: "'a list option \<Rightarrow> bool" where
  "truthy_string v = (case v of None \<Rightarrow> False | Some s \<Rightarrow> s \<noteq> [])"

definition truthy_bool :: "bool option \<Rightarrow> bool" where
  "truthy_bool v = (v = Some True)"

definition or_string :: "'a list option \<Rightarrow> 'a list option \<Rightarrow> 'a list option" where
  "or_string a b = (if truthy_string a then a else b)"

text \<open>JavaScript truthiness of a JSON value.\<close>

fun truthy_json :: "json \<Rightarrow> bool" where
  "truthy_json JNull = False"
| "truthy_json (JBool b) = b"
| "truthy_json (JNum n) = (n \<noteq> 0)"
| "truthy_json (JString s) = (s \<noteq> [])"
| "truthy_json (JArray xs) = True"
| "truthy_json (JObject members) = True"



section \<open>ChatBot: building chat messages\<close>

record User =
  role :: string

record inner_settings =
  edit_mode_enabled :: bool

record UserSettings =
  settings :: "inner_settings option"

record SqlEditorInfo =
  queries :: "jsstring list"
  requiresConfirmation :: "bool option"

record SqlResultInfo =
  sr_sql :: jsstring
  sr_data :: "row list option"
  sr_error :: "string option"

record ChatMessage =
  isUser :: bool
  msg_text :: string
  msg_query_type :: "string option"
  sqlResult :: "SqlResultInfo option"
  sqlEditor :: "SqlEditorInfo option"
  verificationResult :: "json option"

text \<open>\<open>user?.role === 'admin'\<close> and \<open>settings?.settings?.edit_mode_enabled\<close>.\<close>

definition is_admin :: "User option \<Rightarrow> bool" where
  "is_admin user = (case user of None \<Rightarrow> False | Some u \<Rightarrow> role u = ''admin'')"

definition edit_mode :: "UserSettings option \<Rightarrow> bool" where
  "edit_mode st =
     (case st of None \<Rightarrow> False
      | Some s \<Rightarrow> (case settings s of None \<Rightarrow> False | Some i \<Rightarrow> edit_mode_enabled i))"

text \<open>
  handleSendMessage, the block under \<open>if (user?.role === 'admin' && result.sql)\<close>.
  Case 1: an edit query (\<open>query_type === 'edit_sql' || is_edit_query ||
  requires_confirmation\<close>) gets an editor with the split queries and the response's
  \<open>requires_confirmation\<close>. Case 2: in edit mode, a response that splits into more than
  one query gets an editor that asks for no confirmation.
\<close>

definition attach_editor ::
  "User option \<Rightarrow> UserSettings option \<Rightarrow> envelope \<Rightarrow> SqlEditorInfo option" where
  "attach_editor user st result =
     (if is_admin user \<and> truthy_string (sql result)
      then (if query_type result = Some ''edit_sql'' \<or> truthy_bool (is_edit_query result)
               \<or> truthy_bool (requires_confirmation result)
            then Some \<lparr>queries = split_queries (the (sql result)),
                       requiresConfirmation = requires_confirmation result\<rparr>
            else if edit_mode st \<and> 1 < length (split_queries (the (sql result)))
            then Some \<lparr>queries = split_queries (the (sql result)),
                       requiresConfirmation = Some False\<rparr>
            else None)
      else None)"

text \<open>
  handleSendMessage: the bot message built from the result of executeQuery. The text is
  \<open>result.text || result.message || 'Query executed successfully.'\<close>; a result of type
  \<open>'sql'\<close> or \<open>'edit_sql'\<close> carries the SQL result, the verification result when it
  is truthy and, through \<open>attach_editor\<close>, the editor. (The \<open>'analysis'\<close> branch attaches the tables
  and no editor; the tables are not modelled.)
\<close>

definition botMessage ::
  "User option \<Rightarrow> UserSettings option \<Rightarrow> envelope \<Rightarrow> ChatMessage" where
  "botMessage user st result =
     (let responseMessage =
            the (or_string (text' result)
                  (or_string (message result) (Some ''Query executed successfully.'')));
          base = \<lparr>isUser = False, msg_text = responseMessage,
                  msg_query_type = query_type result, sqlResult = None, sqlEditor = None,
                  verificationResult = None\<rparr>
      in if query_type result = Some ''sql'' \<or> query_type result = Some ''edit_sql''
         then base\<lparr>sqlResult := Some \<lparr>sr_sql = the (or_string (sql result) (Some [])),
                                         sr_data = data result, sr_error = error result\<rparr>,
                    verificationResult :=
                      (case verification_result result of
                         Some report \<Rightarrow> if truthy_json report then Some report else None
                       | None \<Rightarrow> None),
                    sqlEditor := attach_editor user st result\<rparr>
         else base)"

text \<open>
  loadSessionMessages: a stored message and its conversion. The query type is the stored
  one when there is one, else it is derived from the flags; \<open>'fetch'\<close> counts as
  \<open>'sql'\<close>. A stored edit query gets an editor, for an admin only, that always asks for
  confirmation.
\<close>

record StoredMessage =
  sm_role :: string
  sm_content :: string
  query_result :: "envelope option"

definition stored_query_type :: "envelope option \<Rightarrow> string option" where
  "stored_query_type queryResult =
     (let queryType =
        (case queryResult of
           None \<Rightarrow> None
         | Some qr \<Rightarrow>
             if truthy_string (query_type qr) then query_type qr
             else if truthy_bool (is_conversational qr) then Some ''conversational''
             else if truthy_bool (is_multi_query qr) \<or> truthy_bool (is_why_analysis qr)
             then Some ''analysis''
             else if truthy_string (sql qr) then Some ''sql''
             else None)
      in if queryType = Some ''fetch'' then Some ''sql'' else queryType)"

definition convertedMessage :: "User option \<Rightarrow> StoredMessage \<Rightarrow> ChatMessage" where
  "convertedMessage user msg =
     (let queryResult = query_result msg;
          queryType = stored_query_type queryResult;
          has_sql = (case queryResult of None \<Rightarrow> False | Some qr \<Rightarrow> truthy_string (sql qr))
      in \<lparr>isUser = (sm_role msg = ''user''),
          msg_text = sm_content msg,
          msg_query_type = queryType,
          sqlResult =
            (if has_sql
             then Some \<lparr>sr_sql = the (sql (the queryResult)),
                        sr_data = results (the queryResult),
                        sr_error = error (the queryResult)\<rparr>
             else None),
          sqlEditor =
            (if queryType = Some ''edit_sql'' \<and> has_sql \<and> is_admin user
             then Some \<lparr>queries = split_queries (the (sql (the queryResult))),
                        requiresConfirmation = Some True\<rparr>
             else None),
          verificationResult = None\<rparr>)"

section \<open>Pagination in the client\<close>

text \<open>
  The pagination information of a response (the interface \<open>PaginationInfo\<close> of
  SqlResult.tsx and ChatBot); \<open>has_next\<close> and \<open>has_prev\<close> are optional.
\<close>

record PaginationInfo =
  table_id :: string
  current_page :: int
  total_pages :: int
  total_rows :: int
  page_size :: int
  has_next :: "bool option"
  has_prev :: "bool option"

text \<open>
  SqlResult.handlePageChange: with a callback and pagination information, a page below 1
  or above \<open>total_pages\<close> is refused with the warning
  \<open>Invalid page number: n. Must be between 1 and total_pages\<close> and the callback is not
  called; any other page goes to the callback. Without callback or pagination the change
  is impossible. (ChatBot imports the component; its two uses of it are inside JSX
  comments.)
\<close>

datatype page_change = Forwarded int | InvalidPage int int | CannotChangePage

definition handlePageChange :: "bool \<Rightarrow> PaginationInfo option \<Rightarrow> int \<Rightarrow> page_change" where
  "handlePageChange onPageChange pagination newPage =
     (case pagination of
        Some p \<Rightarrow>
          if onPageChange
          then (if newPage < 1 \<or> newPage > total_pages p
                then InvalidPage newPage (total_pages p)
                else Forwarded newPage)
          else CannotChangePage
      | None \<Rightarrow> CannotChangePage)"

section \<open>Charts (Visualization.tsx)\<close>







text \<open>
  What renderChart returns: the chart element of the branch taken, or the notice
  \<open>No data available to visualize\<close>. The cases \<open>'pie'\<close> and \<open>'donut'\<close> both return a
  \<open>PieChart\<close>; they differ in the \<open>innerRadius\<close> of its \<open>Pie\<close>, which \<open>'pie'\<close> does not
  set and \<open>'donut'\<close> sets to 40.
\<close>

datatype chart_element = BarChart | LineChart | PieChart "nat option" | AreaChart
  | ScatterChart | ComposedChart | RadialBarChart | Treemap | FunnelChart | NoData

text \<open>\<open>chart?.chart_type || chartType\<close>, the type that renderChart switches on.\<close>

definition chartTypeToUse :: "string option \<Rightarrow> string \<Rightarrow> string" where
  "chartTypeToUse chart chartType = the (or_string chart (Some chartType))"

text \<open>The \<open>case\<close> labels of the \<open>switch\<close> in renderChart, in order, with what each returns.\<close>

definition renderChart_cases :: "(string \<times> chart_element) list" where
  "renderChart_cases =
     [(''bar'', BarChart), (''line'', LineChart), (''pie'', PieChart None),
      (''donut'', PieChart (Some 40)), (''area'', AreaChart), (''scatter'', ScatterChart),
      (''composed'', ComposedChart), (''radial'', RadialBarChart), (''treemap'', Treemap),
      (''funnel'', FunnelChart)]"

text \<open>
  renderChart, for a chart with the given \<open>chart_type\<close> (or none) and the current chart
  type. \<open>has_data\<close> says whether prepareChartData returns any row; that depends on the
  data and the axes and not on the chart type. Without rows the notice is shown.
  Otherwise the \<open>switch\<close> returns the element of the matching case; \<open>default\<close> calls
  renderChart again on a chart of type \<open>'bar'\<close> with the same axes.
\<close>

function renderChart :: "string option \<Rightarrow> string \<Rightarrow> bool \<Rightarrow> chart_element" where
  "renderChart chart chartType has_data =
     (if \<not> has_data then NoData
      else (case map_of renderChart_cases (chartTypeToUse chart chartType) of
              Some element \<Rightarrow> element
            | None \<Rightarrow> renderChart (Some ''bar'') chartType has_data))"
  by pat_completeness auto
termination
  by (relation "measure (\<lambda>(chart, chartType, has_data).
        if map_of renderChart_cases (chartTypeToUse chart chartType) = None then 1 else 0)")
     (auto simp: chartTypeToUse_def or_string_def truthy_string_def renderChart_cases_def)

declare renderChart.simps [simp del]

section \<open>The graph (GraphManager.create_graph)\<close>

text \<open>
  The nodes that create_graph adds, with LangGraph's \<open>START\<close> and \<open>END\<close>.
\<close>

datatype node = START | route_query | handle_conversational | generate_sql | validate_sql
  | generate_response | handle_error | generate_analytical_questions
  | execute_analytical_workflow | generate_comprehensive_analysis | END

text \<open>
  A state graph as create_graph builds it: the nodes (\<open>add_node\<close>), the plain edges
  (\<open>add_edge\<close>) and, per routing node, the path map of \<open>add_conditional_edges\<close> from the
  router's answer to the next node.
\<close>

record state_graph =
  nodes :: "node list"
  edges :: "(node \<times> node) list"
  branches :: "(node \<times> (string \<times> node) list) list"

definition create_graph :: state_graph where
  "create_graph =
     \<lparr>nodes = [route_query, handle_conversational, generate_sql, validate_sql,
               generate_response, handle_error, generate_analytical_questions,
               execute_analytical_workflow, generate_comprehensive_analysis],
      edges = [(START, route_query),
               (handle_conversational, END),
               (generate_response, END),
               (generate_comprehensive_analysis, END),
               (handle_error, END)],
      branches =
        [(route_query,
            [(''conversational'', handle_conversational),
             (''analytical'', generate_analytical_questions),
             (''standard'', generate_sql),
             (''error'', handle_error)]),
         (generate_sql,
            [(''validate'', validate_sql),
             (''respond'', generate_response),
             (''error'', handle_error)]),
         (generate_analytical_questions,
            [(''execute'', execute_analytical_workflow),
             (''error'', handle_error)]),
         (execute_analytical_workflow,
            [(''analyze'', generate_comprehensive_analysis),
             (''error'', handle_error)])]\<rparr>"

text \<open>
  The node that runs after \<open>n\<close>: the target of its plain edge, else the entry of its path
  map for the router's answer. \<open>None\<close> means that no node follows: \<open>n\<close> has no
  outgoing edge, or the answer is not a key of the path map (LangGraph raises).
  In create_graph no node has both a plain edge and a path map.
\<close>

definition next_node :: "state_graph \<Rightarrow> node \<Rightarrow> string \<Rightarrow> node option" where
  "next_node g n decision =
     (case map_of (edges g) n of
        Some m \<Rightarrow> Some m
      | None \<Rightarrow> (case map_of (branches g) n of
                   Some path_map \<Rightarrow> map_of path_map decision
                 | None \<Rightarrow> None))"

definition successor :: "node \<Rightarrow> string \<Rightarrow> node option" where
  "successor n decision = next_node create_graph n decision"

text \<open>
  A run of the compiled graph. The node functions and the routers (\<open>_route_decision\<close>,
  \<open>_should_validate\<close>, \<open>_analytical_questions_result\<close>, \<open>_analytical_execution_result\<close>)
  are not in the sources; they are parameters: \<open>node_fn n\<close> maps the state to the state
  after node \<open>n\<close>, \<open>router n\<close> reads that state and answers. \<open>START\<close> and \<open>END\<close> run no
  function. The run returns the nodes visited, in order, and the last state.
  It terminates because every edge of create_graph lowers \<open>rank\<close>.
\<close>

fun rank :: "node \<Rightarrow> nat" where
  "rank START = 5"
| "rank route_query = 4"
| "rank generate_sql = 3"
| "rank generate_analytical_questions = 3"
| "rank execute_analytical_workflow = 2"
| "rank END = 0"
| "rank _ = 1"

definition apply_node :: "(node \<Rightarrow> 's \<Rightarrow> 's) \<Rightarrow> node \<Rightarrow> 's \<Rightarrow> 's" where
  "apply_node node_fn n s = (if n = START \<or> n = END then s else node_fn n s)"

function run_from ::
  "(node \<Rightarrow> 's \<Rightarrow> 's) \<Rightarrow> (node \<Rightarrow> 's \<Rightarrow> string) \<Rightarrow> node \<Rightarrow> 's \<Rightarrow> node list \<times> 's" where
  "run_from node_fn router n s =
     (case successor n (router n (apply_node node_fn n s)) of
        None \<Rightarrow> ([n], apply_node node_fn n s)
      | Some m \<Rightarrow>
          (case run_from node_fn router m (apply_node node_fn n s) of
             (path, final) \<Rightarrow> (n # path, final)))"
  by pat_completeness auto
termination
  by (relation "measure (\<lambda>(node_fn, router, n, s). rank n)")
     (auto simp: successor_def next_node_def create_graph_def split: node.splits if_splits)

text \<open>
  A router is well behaved when each of its answers is a key of the path map of the node
  it routes.
\<close>

definition answers_in_path_map :: "(node \<Rightarrow> 's \<Rightarrow> string) \<Rightarrow> bool" where
  "answers_in_path_map router =
     (\<forall>n s. case map_of (branches create_graph) n of
              None \<Rightarrow> True
            | Some path_map \<Rightarrow> router n s \<in> set (map fst path_map))"

section \<open>Conversation memory (MemoryManager.get_relevant_context)\<close>

record Document =
  page_content :: string

text \<open>Python's \<open>sep.join(parts)\<close>.\<close>

definition join_str :: "string \<Rightarrow> string list \<Rightarrow> string" where
  "join_str sep parts =
     concat (case parts of [] \<Rightarrow> [] | p # ps \<Rightarrow> p # map (\<lambda>q. sep @ q) ps)"

text \<open>
  get_relevant_context returns the empty string when memory is off. Else it searches the
  vector store; the search is the library's and is a parameter that either raises
  (\<open>Inl\<close>) or returns documents. An exception is logged and swallowed. Found documents
  are joined as \<open>Previous: ...\<close> paragraphs; otherwise the final \<open>return ""\<close> is reached.
\<close>

definition get_relevant_context ::
  "bool \<Rightarrow> (string \<Rightarrow> nat \<Rightarrow> string + Document list) \<Rightarrow> string \<Rightarrow> nat \<Rightarrow> string" where
  "get_relevant_context use_memory similarity_search question k =
     (if \<not> use_memory then ''''
      else (case similarity_search question k of
              Inl exception \<Rightarrow> ''''
            | Inr docs \<Rightarrow>
                if docs \<noteq> []
                then join_str [CHR 0x0A, CHR 0x0A]
                       (map (\<lambda>doc. ''Previous: '' @ page_content doc) docs)
                else ''''))"

section \<open>The execution engine and the edit turn\<close>


text \<open>Modelled from the spec: the two modes of \<open>execute_edit\<close>.\<close>

datatype edit_mode = mode_auto | mode_transaction









section \<open>Page retrieval (get_page)\<close>

text \<open>
  Modelled from the spec: the page retrieval of the execution engine, \<open>get_page\<close>, is
  not in the sources; only the client's guard (SqlResult.handlePageChange), its request
  (getPaginatedResults) and the interface of the pagination information it receives are.
  The definitions of this section follow sections 4.4, 6, 7 and 8 of the specification.

  The error \<open>invalid_page\<close>, surfaced with the allowed range of pages.
\<close>

datatype page_error = invalid_page int int

text \<open>
  Modelled from the spec: \<open>page_size\<close> is clamped to \<open>[1, 200]\<close>, with 10 when none is
  given.
\<close>

definition clamp_page_size :: "int option \<Rightarrow> nat" where
  "clamp_page_size requested =
     (case requested of None \<Rightarrow> 10 | Some n \<Rightarrow> nat (max 1 (min 200 n)))"

text \<open>
  Modelled from the spec: \<open>total_pages\<close>, the number of pages that hold \<open>n\<close> rows, a
  page holding \<open>sz\<close> rows (237 rows in pages of 50 are 5 pages; no row is no page).
\<close>

definition page_count :: "nat \<Rightarrow> nat \<Rightarrow> nat" where
  "page_count n sz = (n + sz - 1) div sz"

text \<open>
  Modelled from the spec: what a page request returns, the rows of the page (the
  envelope's \<open>results\<close>) and the envelope's \<open>pagination\<close>.
\<close>

record 'r page_response =
  page_rows :: "'r list"
  page_info :: PaginationInfo

text \<open>
  Modelled from the spec: \<open>get_page\<close> on the rows stored under \<open>table_id\<close> (the look-up
  of the table in the registry of the session is left out). Pages are numbered from 1.
  A request outside \<open>[1, total_pages]\<close> fails with \<open>invalid_page\<close>; a request inside
  returns the rows of that page in their stored order, with the pagination information
  (the table id is returned as it is; the specification lets the engine change it).
\<close>

definition get_page ::
  "string \<Rightarrow> 'r list \<Rightarrow> int \<Rightarrow> int option \<Rightarrow> page_error + 'r page_response" where
  "get_page tid stored page requested =
     (let sz = clamp_page_size requested;
          pages = page_count (length stored) sz
      in if page < 1 \<or> int pages < page then Inl (invalid_page 1 (int pages))
         else Inr \<lparr>page_rows = take sz (drop ((nat page - 1) * sz) stored),
                   page_info = \<lparr>table_id = tid, current_page = page,
                                 total_pages = int pages,
                                 total_rows = int (length stored), page_size = int sz,
                                 has_next = Some (page < int pages),
                                 has_prev = Some (1 < page)\<rparr>\<rparr>)"

section \<open>Verification\<close>

subsection \<open>Splitting on the sentinel\<close>

lemma sentinel_value: "SENTINEL = [60, 45, 45, 45, 45, 45, 62]"
  by (simp add: SENTINEL_def js_def)

lemma split_from_no_match:
  "\<not> js_includes p sep \<Longrightarrow> split_from sep acc p = [rev acc @ p]"
  by (induction p arbitrary: acc) auto

text \<open>
  The sentinel has no border: an occurrence of it cannot start inside a piece and run
  into the sentinel that follows the piece.
\<close>

lemma prefix_sentinel_overlap:
  assumes "prefix SENTINEL (p @ SENTINEL @ rest)" and "p \<noteq> []"
  shows "prefix SENTINEL p"
proof -
  from assms(1) consider "prefix SENTINEL p"
    | us where "SENTINEL = p @ us" "prefix us (SENTINEL @ rest)"
    by (auto simp: prefix_append)
  then show ?thesis
  proof cases
    case 1
    then show ?thesis .
  next
    case 2
    from 2(1) assms(2) 2(2) show ?thesis
      unfolding sentinel_value
      by (auto simp: Cons_eq_append_conv)
  qed
qed

lemma split_from_at_sentinel:
  "\<not> js_includes p SENTINEL \<Longrightarrow>
   split_from SENTINEL acc (p @ SENTINEL @ rest) = (rev acc @ p) # split_from SENTINEL [] rest"
proof (induction p arbitrary: acc)
  case Nil
  then show ?case by (simp add: sentinel_value)
next
  case (Cons c p)
  have "\<not> prefix SENTINEL ((c # p) @ SENTINEL @ rest)"
    using Cons.prems prefix_sentinel_overlap[of "c # p" rest] by auto
  then show ?case using Cons by simp
qed

lemma prefix_sentinel_Cons:
  "prefix SENTINEL (c # cs) \<Longrightarrow> c = 60"
  by (simp add: sentinel_value)

lemma not_ws_60: "\<not> is_js_whitespace 60"
  by (simp add: is_js_whitespace_def)

lemma not_ws_62: "\<not> is_js_whitespace 62"
  by (simp add: is_js_whitespace_def)

lemma split_from_skip_ws:
  "ws_only post \<Longrightarrow>
   split_from SENTINEL acc (post @ x) = split_from SENTINEL (rev post @ acc) x"
proof (induction post arbitrary: acc)
  case Nil
  then show ?case by simp
next
  case (Cons c post)
  then have "is_js_whitespace c" and "ws_only post" by (simp_all add: ws_only_def)
  then have "\<not> prefix SENTINEL (c # post @ x)"
    using prefix_sentinel_Cons not_ws_60 by blast
  then show ?case using Cons.IH[OF \<open>ws_only post\<close>] by simp
qed

lemma js_includes_snoc_ws:
  "is_js_whitespace c \<Longrightarrow> \<not> js_includes p SENTINEL \<Longrightarrow>
   \<not> js_includes (p @ [c]) SENTINEL"
proof (induction p)
  case Nil
  then show ?case by (simp add: sentinel_value)
next
  case (Cons a p)
  have "\<not> prefix SENTINEL ((a # p) @ [c])"
  proof
    assume "prefix SENTINEL ((a # p) @ [c])"
    then have "SENTINEL = (a # p) @ [c] \<or> prefix SENTINEL (a # p)"
      by (simp only: prefix_snoc)
    then show False
      using Cons.prems not_ws_62 by (auto simp: sentinel_value Cons_eq_append_conv)
  qed
  then show ?case using Cons by simp
qed

lemma js_includes_append_ws:
  "ws_only pre \<Longrightarrow> \<not> js_includes p SENTINEL \<Longrightarrow> \<not> js_includes (p @ pre) SENTINEL"
proof (induction pre arbitrary: p)
  case Nil
  then show ?case by simp
next
  case (Cons c pre)
  then have "\<not> js_includes (p @ [c]) SENTINEL"
    using js_includes_snoc_ws by (simp add: ws_only_def)
  moreover have "ws_only pre" using Cons.prems(1) by (simp add: ws_only_def)
  ultimately have "\<not> js_includes ((p @ [c]) @ pre) SENTINEL"
    by (rule Cons.IH[rotated])
  then show ?case by simp
qed

lemma dropWhile_ws_only:
  "ws_only a \<Longrightarrow> dropWhile is_js_whitespace (a @ s) = dropWhile is_js_whitespace s"
  by (induction a) (simp_all add: ws_only_def)

lemma dropWhile_ws_only_Nil: "ws_only s \<Longrightarrow> dropWhile is_js_whitespace s = []"
  by (simp add: ws_only_def list_all_iff)

lemma ws_only_append: "ws_only (a @ b) = (ws_only a \<and> ws_only b)"
  by (simp add: ws_only_def)

lemma ws_only_rev: "ws_only (rev a) = ws_only a"
  by (simp add: ws_only_def list_all_iff)

lemma trim_ws_prefix: "ws_only a \<Longrightarrow> trim (a @ s) = trim s"
  by (simp add: trim_def dropWhile_ws_only)

lemma trim_ws_suffix: "ws_only b \<Longrightarrow> trim (s @ b) = trim s"
proof (cases "ws_only s")
  case True
  assume "ws_only b"
  with True have "dropWhile is_js_whitespace (s @ b) = []"
    using dropWhile_ws_only_Nil[of "s @ b"] by (simp only: ws_only_append)
  moreover from True have "dropWhile is_js_whitespace s = []"
    by (rule dropWhile_ws_only_Nil)
  ultimately show ?thesis by (simp only: trim_def)
next
  case False
  assume b: "ws_only b"
  from False obtain x where x: "x \<in> set s" "\<not> is_js_whitespace x"
    by (auto simp: ws_only_def list_all_iff)
  then have "dropWhile is_js_whitespace (s @ b) = dropWhile is_js_whitespace s @ b"
    by (rule dropWhile_append1)
  then show ?thesis
    using b by (simp add: trim_def dropWhile_ws_only ws_only_rev)
qed

text \<open>
  The pieces of a joined string, trimmed, are the trimmed statements: the separator may
  carry white space on either side of the sentinel (executeBatch puts a line feed there).
\<close>

lemma map_trim_split_join:
  assumes "ws_only pre" "ws_only post"
  shows "ps \<noteq> [] \<Longrightarrow> ws_only acc \<Longrightarrow> \<forall>p\<in>set ps. \<not> js_includes p SENTINEL \<Longrightarrow>
     map trim (split_from SENTINEL acc (join ps (pre @ SENTINEL @ post))) = map trim ps"
proof (induction ps arbitrary: acc)
  case Nil
  then show ?case by simp
next
  case (Cons p ps)
  show ?case
  proof (cases ps)
    case Nil
    with Cons.prems show ?thesis
      by (simp add: split_from_no_match trim_ws_prefix ws_only_rev)
  next
    case (Cons q qs)
    have np: "\<not> js_includes (p @ pre) SENTINEL"
      using Cons.prems assms(1) js_includes_append_ws by simp
    have "split_from SENTINEL acc (join (p # ps) (pre @ SENTINEL @ post))
        = split_from SENTINEL acc
            ((p @ pre) @ SENTINEL @ (post @ join ps (pre @ SENTINEL @ post)))"
      using Cons by simp
    also have "\<dots> = (rev acc @ p @ pre)
        # split_from SENTINEL [] (post @ join ps (pre @ SENTINEL @ post))"
      using split_from_at_sentinel[OF np] by simp
    also have "\<dots> = (rev acc @ p @ pre)
        # split_from SENTINEL (rev post) (join ps (pre @ SENTINEL @ post))"
      using split_from_skip_ws[OF assms(2)] by simp
    finally have eq: "split_from SENTINEL acc (join (p # ps) (pre @ SENTINEL @ post))
        = (rev acc @ p @ pre)
          # split_from SENTINEL (rev post) (join ps (pre @ SENTINEL @ post))" .
    have ih: "map trim (split_from SENTINEL (rev post) (join ps (pre @ SENTINEL @ post)))
        = map trim ps"
      using Cons.IH[of "rev post"] Cons.prems assms(2) Cons by (simp add: ws_only_rev)
    have "trim (rev acc @ p @ pre) = trim p"
      using Cons.prems(2) assms(1) trim_ws_prefix[of "rev acc" "p @ pre"]
        trim_ws_suffix[of pre p]
      by (simp add: ws_only_rev)
    then show ?thesis using eq ih by simp
  qed
qed

lemma split_queries_join:
  assumes "ws_only pre" "ws_only post"
    and "\<forall>s\<in>set stmts. s \<noteq> [] \<and> trim s = s \<and> \<not> js_includes s SENTINEL"
  shows "split_queries (join stmts (pre @ SENTINEL @ post)) = stmts"
proof (cases stmts)
  case Nil
  then show ?thesis
    by (simp add: split_queries_def split_def trim_def sentinel_value)
next
  case (Cons a list)
  have "map trim (split_from SENTINEL [] (join stmts (pre @ SENTINEL @ post)))
      = map trim stmts"
    using map_trim_split_join[OF assms(1,2), of stmts "[]"] assms(3) Cons
    by (simp add: ws_only_def)
  moreover have "map trim stmts = stmts"
    using assms(3) by (simp add: map_idI)
  moreover have "filter (\<lambda>q. q \<noteq> []) stmts = stmts"
    using assms(3) by (simp add: filter_id_conv)
  ultimately show ?thesis
    by (simp add: split_queries_def split_def sentinel_value)
qed

text \<open>
  Claim C4. For every list of statements that are non-empty, trimmed and free of the
  sentinel, joining them with \<open><----->\<close> (as the claim words it) or with executeBatch's
  separator (the sentinel on a line of its own) and then splitting on \<open><----->\<close>,
  trimming each piece and dropping the empty ones, returns the original list in the
  original order.
\<close>

theorem separator_split_join_roundtrip:
  assumes "\<forall>s\<in>set stmts. s \<noteq> [] \<and> trim s = s \<and> \<not> js_includes s SENTINEL"
  shows "split_queries (join stmts SENTINEL) = stmts
       \<and> split_queries (join stmts BATCH_SEPARATOR) = stmts"
proof
  show "split_queries (join stmts SENTINEL) = stmts"
    using split_queries_join[of "[]" "[]" stmts] assms by (simp add: ws_only_def)
  have nl: "ws_only [0x000A]" by (simp add: ws_only_def is_js_whitespace_def)
  show "split_queries (join stmts BATCH_SEPARATOR) = stmts"
    unfolding BATCH_SEPARATOR_def by (rule split_queries_join[OF nl nl assms])
qed

theorem separator_split_join_roundtrip_witness:
  "split_queries (join [js ''DROP TABLE t'', js ''SELECT 1''] SENTINEL)
     = [js ''DROP TABLE t'', js ''SELECT 1'']
   \<and> split_queries (join [js ''DROP TABLE t'', js ''SELECT 1''] BATCH_SEPARATOR)
     = [js ''DROP TABLE t'', js ''SELECT 1'']"
proof -
  have h: "\<forall>s\<in>set [js ''DROP TABLE t'', js ''SELECT 1''].
             s \<noteq> [] \<and> trim s = s \<and> \<not> js_includes s SENTINEL"
    by (simp add: js_def trim_def is_js_whitespace_def sentinel_value)
  show ?thesis by (rule separator_split_join_roundtrip[OF h])
qed

subsection \<open>The pieces of a split\<close>










subsection \<open>The graph\<close>

lemmas graph_defs = successor_def next_node_def create_graph_def

lemma successor_END_iff:
  "successor n d = Some END \<longleftrightarrow>
     n \<in> {handle_conversational, generate_response, generate_comprehensive_analysis, handle_error}"
  by (cases n) (auto simp: graph_defs split: if_splits)

lemma successor_validate_sql: "successor validate_sql d = None"
  by (simp add: graph_defs)

lemma successor_rank: "successor n d = Some m \<Longrightarrow> rank m < rank n"
  by (cases n) (auto simp: graph_defs split: if_splits)

lemma run_from_path_length: "length (fst (run_from node_fn router n s)) \<le> Suc (rank n)"
proof (induction node_fn router n s rule: run_from.induct)
  case (1 node_fn router n s)
  show ?case
  proof (cases "successor n (router n (apply_node node_fn n s))")
    case None
    then show ?thesis by simp
  next
    case (Some m)
    then have "rank m < rank n" by (rule successor_rank)
    moreover have "length (fst (run_from node_fn router m (apply_node node_fn n s))) \<le> Suc (rank m)"
      using "1.IH"[OF Some] .
    ultimately show ?thesis
      using Some by (simp add: split_beta)
  qed
qed

lemma run_from_END: "run_from node_fn router END s = ([END], s)"
  by (simp add: graph_defs apply_node_def)

lemma run_from_terminal:
  "n \<in> {handle_conversational, generate_response, generate_comprehensive_analysis, handle_error}
   \<Longrightarrow> fst (run_from node_fn router n s) = [n, END]"
  by (auto simp: graph_defs apply_node_def split_beta)

lemma run_from_validate_sql: "fst (run_from node_fn router validate_sql s) = [validate_sql]"
  by (simp add: graph_defs apply_node_def)


lemma run_from_execute_analytical_workflow:
  "answers_in_path_map router \<Longrightarrow>
   last (fst (run_from node_fn router execute_analytical_workflow s)) = END"
proof -
  assume "answers_in_path_map router"
  then have "router execute_analytical_workflow (apply_node node_fn execute_analytical_workflow s)
      \<in> {''analyze'', ''error''}"
    unfolding answers_in_path_map_def
    by (drule_tac x = execute_analytical_workflow in spec) (simp add: create_graph_def)
  then show ?thesis
    using run_from_terminal[of generate_comprehensive_analysis node_fn router]
      run_from_terminal[of handle_error node_fn router]
    by (subst run_from.simps) (auto simp: graph_defs split_beta)
qed


lemma run_from_generate_analytical_questions:
  "answers_in_path_map router \<Longrightarrow>
   last (fst (run_from node_fn router generate_analytical_questions s)) = END"
proof -
  assume r: "answers_in_path_map router"
  then have "router generate_analytical_questions
        (apply_node node_fn generate_analytical_questions s) \<in> {''execute'', ''error''}"
    unfolding answers_in_path_map_def
    by (drule_tac x = generate_analytical_questions in spec) (simp add: create_graph_def)
  then show ?thesis
    using run_from_terminal[of handle_error node_fn router]
      run_from_execute_analytical_workflow[OF r, of node_fn]
    by (subst run_from.simps) (auto simp: graph_defs split_beta)
qed

lemma run_from_generate_sql:
  "answers_in_path_map router \<Longrightarrow>
   last (fst (run_from node_fn router generate_sql s)) \<in> {END, validate_sql}"
proof -
  assume r: "answers_in_path_map router"
  then have "router generate_sql (apply_node node_fn generate_sql s)
      \<in> {''validate'', ''respond'', ''error''}"
    unfolding answers_in_path_map_def
    by (drule_tac x = generate_sql in spec) (simp add: create_graph_def)
  then show ?thesis
    using run_from_terminal[of handle_error node_fn router]
      run_from_terminal[of generate_response node_fn router]
      run_from_validate_sql[of node_fn router]
    by (subst run_from.simps) (auto simp: graph_defs split_beta)
qed

lemma run_from_route_query:
  "answers_in_path_map router \<Longrightarrow>
   last (fst (run_from node_fn router route_query s)) \<in> {END, validate_sql}"
proof -
  assume r: "answers_in_path_map router"
  then have "router route_query (apply_node node_fn route_query s)
      \<in> {''conversational'', ''analytical'', ''standard'', ''error''}"
    unfolding answers_in_path_map_def
    by (drule_tac x = route_query in spec) (simp add: create_graph_def)
  moreover have "fst (run_from node_fn router generate_sql t) \<noteq> []" for t
    by (subst run_from.simps) (simp add: split_beta split: option.splits)
  moreover have "fst (run_from node_fn router generate_analytical_questions t) \<noteq> []" for t
    by (subst run_from.simps) (simp add: split_beta split: option.splits)
  ultimately show ?thesis
    using run_from_terminal[of handle_error node_fn router]
      run_from_terminal[of handle_conversational node_fn router]
      run_from_generate_sql[OF r, of node_fn]
      run_from_generate_analytical_questions[OF r, of node_fn]
    by (subst run_from.simps) (auto simp: graph_defs split_beta)
qed

lemma run_ends_at_END_or_validate_sql:
  "answers_in_path_map router \<Longrightarrow>
   last (fst (run_from node_fn router START s)) \<in> {END, validate_sql}"
proof -
  assume r: "answers_in_path_map router"
  have "fst (run_from node_fn router route_query t) \<noteq> []" for t
    by (subst run_from.simps) (simp add: split_beta split: option.splits)
  then show ?thesis
    using run_from_route_query[OF r, of node_fn]
    by (subst run_from.simps) (auto simp: graph_defs split_beta)
qed

text \<open>
  Where the graph takes an error. A routing node whose router answers \<open>error\<close> is
  followed by handle_error, whose result is the result of the run, and then by \<open>END\<close>.
  validate_sql and the three other terminal nodes have no edge to handle_error: a run
  that is at one of them never visits it, whatever the node writes into the state.
\<close>

lemma error_answer_reaches_handle_error:
  assumes "n \<in> {route_query, generate_sql, generate_analytical_questions,
                  execute_analytical_workflow}"
    and "router n (apply_node node_fn n s) = ''error''"
  shows "run_from node_fn router n s
         = ([n, handle_error, END], node_fn handle_error (node_fn n s))"
proof -
  have 1: "successor n ''error'' = Some handle_error"
    using assms(1) by (auto simp: graph_defs)
  have 2: "successor handle_error d = Some END" for d
    by (simp add: graph_defs)
  have 3: "successor END d = None" for d
    by (simp add: graph_defs)
  have 4: "apply_node node_fn n s = node_fn n s"
    using assms(1) by (auto simp: apply_node_def)
  show ?thesis
    using assms(2) 1 2 3 4 by (simp add: apply_node_def)
qed

lemma no_handle_error_after:
  assumes "n \<in> {validate_sql, handle_conversational, generate_response,
                  generate_comprehensive_analysis}"
  shows "handle_error \<notin> set (fst (run_from node_fn router n s))"
proof (cases "n = validate_sql")
  case True
  have "fst (run_from node_fn router validate_sql s) = [validate_sql]"
    by (rule run_from_validate_sql)
  then show ?thesis unfolding True by (simp only: set_simps) simp
next
  case False
  with assms have "successor n d = Some END" for d
    by (auto simp: graph_defs)
  moreover have "successor END d = None" for d
    by (simp add: graph_defs)
  ultimately show ?thesis using assms False by (auto simp: split_beta)
qed

text \<open>
  Claim C1. Every turn should reach exactly one of the terminal nodes
  handle_conversational, generate_response, generate_comprehensive_analysis and
  handle_error, and then \<open>END\<close>. In create_graph the node validate_sql has no outgoing
  edge: every standard turn whose generator emits a query (the routers answer
  \<open>standard\<close> and then \<open>validate\<close>) visits \<open>START\<close>, route_query, generate_sql and
  validate_sql and stops there, at none of the four terminal nodes and without reaching
  \<open>END\<close>.
\<close>

theorem validate_sql_is_a_dead_end:
  assumes "router route_query (node_fn route_query s) = ''standard''"
    and "router generate_sql (node_fn generate_sql (node_fn route_query s)) = ''validate''"
  shows "run_from node_fn router START s
       = ([START, route_query, generate_sql, validate_sql],
          node_fn validate_sql (node_fn generate_sql (node_fn route_query s)))
       \<and> END \<notin> set (fst (run_from node_fn router START s))
       \<and> set (fst (run_from node_fn router START s))
           \<inter> {handle_conversational, generate_response, generate_comprehensive_analysis,
              handle_error} = {}"
proof -
  have "run_from node_fn router START s
       = ([START, route_query, generate_sql, validate_sql],
          node_fn validate_sql (node_fn generate_sql (node_fn route_query s)))"
    using assms by (simp add: graph_defs apply_node_def)
  then show ?thesis by simp
qed

theorem standard_turn_stops_at_validate_sql:
  "run_from (\<lambda>n s. s) (\<lambda>n s. if n = route_query then ''standard'' else ''validate'') START ()
     = ([START, route_query, generate_sql, validate_sql], ())
   \<and> END \<notin> set (fst (run_from (\<lambda>n s. s)
         (\<lambda>n s. if n = route_query then ''standard'' else ''validate'') START ()))"
  using validate_sql_is_a_dead_end[of "\<lambda>n s. if n = route_query then ''standard'' else ''validate''"
      "\<lambda>n s. s" "()"]
  by simp

subsection \<open>The SQL editor is for administrators\<close>

text \<open>
  Claim C10. A chat message carries a \<open>sqlEditor\<close> only if the current user's role is
  \<open>admin\<close>: for every other user (or none), neither the message built from a query
  result nor the message converted from a stored one has an editor, whatever the
  response is (an edit query, several statements, edit mode on).
\<close>

theorem sql_editor_only_for_admin:
  assumes "\<not> is_admin user"
  shows "sqlEditor (botMessage user st result) = None
       \<and> sqlEditor (convertedMessage user msg) = None"
  using assms by (simp add: botMessage_def attach_editor_def convertedMessage_def Let_def)

theorem sql_editor_only_for_admin_witness:
  "\<not> is_admin (Some \<lparr>role = ''viewer''\<rparr>)
   \<and> sqlEditor (botMessage (Some \<lparr>role = ''viewer''\<rparr>) None
        (no_fields\<lparr>query_type := Some ''edit_sql'', sql := Some (js ''DELETE FROM t''),
                   requires_confirmation := Some True\<rparr>)) = None
   \<and> sqlEditor (convertedMessage (Some \<lparr>role = ''viewer''\<rparr>)
        \<lparr>sm_role = ''assistant'', sm_content = ''ok'',
         query_result = Some (no_fields\<lparr>query_type := Some ''edit_sql'',
                                        sql := Some (js ''DELETE FROM t'')\<rparr>)\<rparr>) = None"
proof -
  have h: "\<not> is_admin (Some \<lparr>role = ''viewer''\<rparr>)" by (simp add: is_admin_def)
  show ?thesis using h sql_editor_only_for_admin[OF h] by simp
qed

subsection \<open>Page bounds\<close>

lemma clamp_page_size_bounds: "1 \<le> clamp_page_size requested \<and> clamp_page_size requested \<le> 200"
  by (auto simp: clamp_page_size_def split: option.splits)

lemma page_count_start:
  assumes "0 < sz" and "p < page_count n sz"
  shows "p * sz < n"
proof -
  from assms(2) have "Suc p \<le> (n + sz - 1) div sz"
    by (simp add: page_count_def)
  then have "Suc p * sz \<le> n + sz - 1"
    using assms(1) by (simp add: less_eq_div_iff_mult_less_eq)
  then show ?thesis using assms(1) by simp
qed

text \<open>
  Claim C6. Pages are 1-indexed. On a stored table, a request for a page below 1 or above
  \<open>total_pages\<close> fails with \<open>invalid_page\<close>, which carries the allowed range; a
  request for a page from 1 to \<open>total_pages\<close> succeeds: it returns the rows of that
  page, at least one and at most \<open>page_size\<close> of them, with the page number,
  \<open>total_pages\<close> and \<open>total_rows\<close>.
\<close>

theorem get_page_bounds:
  "(page < 1 \<or> int (page_count (length stored) (clamp_page_size requested)) < page \<longrightarrow>
      get_page tid stored page requested
        = Inl (invalid_page 1 (int (page_count (length stored) (clamp_page_size requested)))))
   \<and> (1 \<le> page \<and> page \<le> int (page_count (length stored) (clamp_page_size requested)) \<longrightarrow>
      (\<exists>r. get_page tid stored page requested = Inr r
           \<and> page_rows r = take (clamp_page_size requested)
                (drop ((nat page - 1) * clamp_page_size requested) stored)
           \<and> page_rows r \<noteq> []
           \<and> length (page_rows r) \<le> clamp_page_size requested
           \<and> current_page (page_info r) = page
           \<and> total_pages (page_info r)
               = int (page_count (length stored) (clamp_page_size requested))
           \<and> total_rows (page_info r) = int (length stored)))"
proof (intro conjI impI)
  assume "page < 1 \<or> int (page_count (length stored) (clamp_page_size requested)) < page"
  then show "get_page tid stored page requested
      = Inl (invalid_page 1 (int (page_count (length stored) (clamp_page_size requested))))"
    by (auto simp: get_page_def Let_def)
next
  let ?sz = "clamp_page_size requested"
  let ?pages = "page_count (length stored) ?sz"
  assume range: "1 \<le> page \<and> page \<le> int ?pages"
  have sz: "0 < ?sz" using clamp_page_size_bounds[of requested] by simp
  from range have "nat page - 1 < ?pages" by linarith
  from page_count_start[OF sz this] have start: "(nat page - 1) * ?sz < length stored" .
  then have ne: "take ?sz (drop ((nat page - 1) * ?sz) stored) \<noteq> []"
    using sz by simp
  show "\<exists>r. get_page tid stored page requested = Inr r
           \<and> page_rows r = take ?sz (drop ((nat page - 1) * ?sz) stored)
           \<and> page_rows r \<noteq> []
           \<and> length (page_rows r) \<le> ?sz
           \<and> current_page (page_info r) = page
           \<and> total_pages (page_info r) = int ?pages
           \<and> total_rows (page_info r) = int (length stored)"
    using range ne by (simp add: get_page_def Let_def)
qed

theorem get_page_bounds_witness:
  "get_page ''t1'' [10, 20, 30, 40, 50 :: nat] 0 (Some 2) = Inl (invalid_page 1 3)
   \<and> get_page ''t1'' [10, 20, 30, 40, 50 :: nat] 4 (Some 2) = Inl (invalid_page 1 3)
   \<and> (\<exists>r. get_page ''t1'' [10, 20, 30, 40, 50 :: nat] 3 (Some 2) = Inr r
          \<and> page_rows r = [50] \<and> current_page (page_info r) = 3
          \<and> total_pages (page_info r) = 3)"
proof -
  have sz: "clamp_page_size (Some 2) = 2" by (simp add: clamp_page_size_def)
  have pages: "page_count (length [10, 20, 30, 40, 50 :: nat]) 2 = 3"
    by (simp add: page_count_def)
  show ?thesis
    using get_page_bounds[of 0 "[10, 20, 30, 40, 50 :: nat]" "Some 2" "''t1''"]
      get_page_bounds[of 4 "[10, 20, 30, 40, 50 :: nat]" "Some 2" "''t1''"]
      get_page_bounds[of 3 "[10, 20, 30, 40, 50 :: nat]" "Some 2" "''t1''"]
    unfolding sz pages by auto
qed

text \<open>
  The first page holds the first rows of the table; the pages from 1 to \<open>total_pages\<close>
  together are the table, each row once and in order; and the paged result of the
  specification's scenario (237 rows, page 3 of pages of 50) is rows 101 to 150 of 5
  pages, with a page before and a page after.
\<close>

lemma get_page_first:
  assumes "stored \<noteq> []" and "1 \<le> n" and "n \<le> 200"
  shows "\<exists>r. get_page tid stored 1 (Some n) = Inr r \<and> page_rows r = take (nat n) stored"
proof -
  have sz: "clamp_page_size (Some n) = nat n"
    using assms(2,3) by (simp add: clamp_page_size_def)
  from assms(1) have "1 \<le> length stored"
    by (cases stored) simp_all
  then have "0 < page_count (length stored) (nat n)"
    using assms(2) by (simp add: page_count_def div_greater_zero_iff)
  then show ?thesis
    by (simp add: get_page_def Let_def sz)
qed

lemma page_count_step:
  assumes "0 < sz" and "0 < n"
  shows "page_count n sz = Suc (page_count (n - sz) sz)"
proof (cases "sz \<le> n")
  case True
  then obtain m where n: "n = m + sz"
    by (metis le_add_diff_inverse2)
  have "m + sz + sz - 1 = (m + sz - 1) + sz"
    using assms(1) by arith
  then have "(m + sz + sz - 1) div sz = Suc ((m + sz - 1) div sz)"
    using assms(1) by (simp only: div_add_self2)
  then show ?thesis by (simp add: page_count_def n)
next
  case False
  have "(n + sz - 1) div sz = 1"
  proof (rule div_nat_eqI)
    show "sz * 1 \<le> n + sz - 1" using assms by arith
    show "n + sz - 1 < sz * Suc 1" using False assms by arith
  qed
  moreover have "(sz - 1) div sz = 0"
    using assms(1) by simp
  moreover have "n - sz = 0" using False by simp
  ultimately show ?thesis by (simp add: page_count_def)
qed

lemma pages_cover_table:
  assumes "0 < sz"
  shows "concat (map (\<lambda>p. take sz (drop (p * sz) stored)) [0..<page_count (length stored) sz])
         = stored"
  using assms
proof (induction "length stored" arbitrary: stored rule: less_induct)
  case less
  show ?case
  proof (cases "stored = []")
    case True
    then show ?thesis using less.prems by (simp add: page_count_def)
  next
    case False
    let ?rest = "drop sz stored"
    have count: "page_count (length stored) sz = Suc (page_count (length ?rest) sz)"
      using False less.prems by (simp add: page_count_step)
    have shorter: "length ?rest < length stored"
      using False less.prems by simp
    have IH: "concat (map (\<lambda>p. take sz (drop (p * sz) ?rest))
        [0..<page_count (length ?rest) sz]) = ?rest"
      by (rule less.hyps[OF shorter less.prems])
    have "concat (map (\<lambda>p. take sz (drop (p * sz) stored))
        [0..<Suc (page_count (length ?rest) sz)])
        = take sz stored @ concat (map (\<lambda>p. take sz (drop (Suc p * sz) stored))
            [0..<page_count (length ?rest) sz])"
      by (simp add: upt_conv_Cons map_Suc_upt[symmetric] comp_def del: upt_Suc)
    also have "(\<lambda>p. take sz (drop (Suc p * sz) stored)) = (\<lambda>p. take sz (drop (p * sz) ?rest))"
      by (simp add: add.commute)
    finally show ?thesis using IH count by simp
  qed
qed

lemma get_page_rows:
  assumes "p < page_count (length stored) (clamp_page_size requested)"
  shows "(case get_page tid stored (int p + 1) requested of
            Inr r \<Rightarrow> page_rows r | Inl e \<Rightarrow> [])
         = take (clamp_page_size requested) (drop (p * clamp_page_size requested) stored)"
  using assms by (simp add: get_page_def Let_def nat_add_distrib)

lemma all_pages_are_the_table:
  "concat (map (\<lambda>p. case get_page tid stored (int p + 1) requested of
                       Inr r \<Rightarrow> page_rows r | Inl e \<Rightarrow> [])
             [0..<page_count (length stored) (clamp_page_size requested)])
   = stored"
proof -
  have sz: "0 < clamp_page_size requested"
    using clamp_page_size_bounds[of requested] by simp
  have "map (\<lambda>p. case get_page tid stored (int p + 1) requested of
                       Inr r \<Rightarrow> page_rows r | Inl e \<Rightarrow> [])
             [0..<page_count (length stored) (clamp_page_size requested)]
      = map (\<lambda>p. take (clamp_page_size requested)
                    (drop (p * clamp_page_size requested) stored))
             [0..<page_count (length stored) (clamp_page_size requested)]"
    by (rule map_cong[OF refl]) (simp add: get_page_rows)
  then show ?thesis
    by (simp only: pages_cover_table[OF sz])
qed

lemma paged_result_scenario:
  assumes "length stored = 237"
  shows "get_page tid stored 3 (Some 50)
         = Inr \<lparr>page_rows = take 50 (drop 100 stored),
                page_info = \<lparr>table_id = tid, current_page = 3, total_pages = 5,
                              total_rows = 237, page_size = 50,
                              has_next = Some True, has_prev = Some True\<rparr>\<rparr>"
  using assms by (simp add: get_page_def Let_def clamp_page_size_def page_count_def)

text \<open>
  The guard of the client, SqlResult.handlePageChange, passes a page on exactly when
  \<open>get_page\<close> accepts it, when it holds the pagination information of a page of the
  same table.
\<close>

lemma guard_agrees_with_get_page:
  assumes "get_page tid stored page requested = Inr r"
  shows "(handlePageChange True (Some (page_info r)) newPage = Forwarded newPage)
         = (\<exists>r'. get_page tid stored newPage requested = Inr r')"
  using assms by (auto simp: get_page_def Let_def handlePageChange_def split: if_splits)

subsection \<open>Memory retrieval\<close>

text \<open>
  Claim C8. get_relevant_context returns the empty string when memory is disabled, when
  the search raises, and when the search finds no document (as on a session with no
  stored records); it returns a string in every case.
\<close>

theorem memory_context_empty:
  assumes "\<not> use_memory \<or> (\<exists>e. similarity_search question k = Inl e)
           \<or> similarity_search question k = Inr []"
  shows "get_relevant_context use_memory similarity_search question k = ''''"
  using assms by (auto simp: get_relevant_context_def)

theorem memory_context_empty_witness:
  "get_relevant_context True (\<lambda>q k. Inr []) ''show me 5 rows'' 3 = ''''
   \<and> get_relevant_context False (\<lambda>q k. Inr [\<lparr>page_content = ''Question: hi''\<rparr>]) ''hi'' 3 = ''''
   \<and> get_relevant_context True (\<lambda>q k. Inl ''collection is gone'') ''hi'' 3 = ''''"
  using memory_context_empty[of True "\<lambda>q k. Inr []" "''show me 5 rows''" 3]
    memory_context_empty[of False "\<lambda>q k. Inr [\<lparr>page_content = ''Question: hi''\<rparr>]" "''hi''" 3]
    memory_context_empty[of True "\<lambda>q k. Inl ''collection is gone''" "''hi''" 3]
  by simp

text \<open>With documents found, the context is not empty.\<close>

lemma memory_context_nonempty:
  "use_memory \<Longrightarrow> similarity_search question k = Inr (d # ds) \<Longrightarrow>
   get_relevant_context use_memory similarity_search question k \<noteq> ''''"
  by (simp add: get_relevant_context_def join_str_def)

subsection \<open>Chart types\<close>




lemma renderChart_default:
  "map_of renderChart_cases (chartTypeToUse chart chartType) = None \<Longrightarrow>
   renderChart chart chartType True = renderChart (Some ''bar'') chartType True"
  by (subst renderChart.simps) simp

lemma renderChart_no_data: "renderChart chart chartType False = NoData"
  by (subst renderChart.simps) simp




subsection \<open>Transactions\<close>





subsection \<open>Edits wait for the editor\<close>







end
